theory Spec2Isabelle
  imports Main "HOL-Library.Sublist" "HOL-Library.Word" "HOL-Library.FSet"
begin

unbundle bit_operations_syntax

section \<open>JavaScript string and array primitives\<close>

text \<open>
  A string is the list of its code units. \<open>hay.indexOf(needle)\<close> scans the positions
  of \<open>hay\<close> from the left and returns the first one at which \<open>needle\<close> starts, or
  \<open>-1\<close>; the empty needle is found at once.
\<close>

fun indexOfFrom :: "'a list \<Rightarrow> 'a list \<Rightarrow> nat \<Rightarrow> int" where
  "indexOfFrom [] needle k = (if needle = [] then int k else - 1)"
| "indexOfFrom (c # cs) needle k =
     (if prefix needle (c # cs) then int k else indexOfFrom cs needle (Suc k))"

definition indexOf :: "'a list \<Rightarrow> 'a list \<Rightarrow> int" where
  "indexOf hay needle = indexOfFrom hay needle 0"

text \<open>\<open>s[i]\<close>: the code unit at index \<open>i\<close>, \<open>undefined\<close> (here \<open>None\<close>) out of range.\<close>

definition charAt :: "string \<Rightarrow> int \<Rightarrow> char option" where
  "charAt s i = (if 0 \<le> i \<and> i < int (length s) then Some (s ! nat i) else None)"

text \<open>
  \<open>s.substring(start)\<close>, \<open>s.substring(start, stop)\<close>, \<open>s.substr(start)\<close> and
  \<open>s.slice(start, stop)\<close>. \<open>substring\<close> clamps each index into \<open>[0, length]\<close> and swaps
  them when the first is the larger; \<open>substr\<close> counts a negative start from the end;
  \<open>slice\<close> is only called with indices that are not negative.
\<close>

definition clampIndex :: "int \<Rightarrow> nat \<Rightarrow> nat" where
  "clampIndex i len = (if i < 0 then 0 else min (nat i) len)"

definition substring :: "string \<Rightarrow> int \<Rightarrow> string" where
  "substring s start = drop (clampIndex start (length s)) s"

definition substring2 :: "string \<Rightarrow> int \<Rightarrow> int \<Rightarrow> string" where
  "substring2 s start stop =
     (let a = clampIndex start (length s); b = clampIndex stop (length s)
      in take (max a b - min a b) (drop (min a b) s))"

definition substr :: "string \<Rightarrow> int \<Rightarrow> string" where
  "substr s start =
     (if start < 0 then drop (nat (max 0 (int (length s) + start))) s else drop (nat start) s)"

definition slice :: "string \<Rightarrow> nat \<Rightarrow> nat \<Rightarrow> string" where
  "slice s start stop = take (stop - start) (drop start s)"

text \<open>\<open>arr.indexOf(c, fromIndex)\<close> on a typed array, for \<open>fromIndex\<close> not negative.\<close>

fun arrayIndexOfAux :: "'a list \<Rightarrow> 'a \<Rightarrow> nat \<Rightarrow> int" where
  "arrayIndexOfAux [] c k = - 1"
| "arrayIndexOfAux (x # xs) c k = (if x = c then int k else arrayIndexOfAux xs c (Suc k))"

definition arrayIndexOf :: "'a list \<Rightarrow> 'a \<Rightarrow> nat \<Rightarrow> int" where
  "arrayIndexOf arr c fromIndex = arrayIndexOfAux (drop fromIndex arr) c fromIndex"

text \<open>\<open>s.split(sep)\<close> for a separator of one code unit.\<close>

fun splitOn :: "char \<Rightarrow> string \<Rightarrow> string list" where
  "splitOn sep [] = [[]]"
| "splitOn sep (c # cs) =
     (if c = sep then [] # splitOn sep cs
      else (case splitOn sep cs of [] \<Rightarrow> [[c]] | p # ps \<Rightarrow> (c # p) # ps))"

section \<open>Utilities of the repository\<close>

text \<open>
  Modelled from the spec: the bodies of \<open>fastStartsWith\<close> and \<open>fastStartsWithFrom\<close>
  (module utils, of which only the declarations are at hand). The specification calls
  them the fast prefix-test utilities: an optimized \<open>startsWith\<close>, and \<open>startsWith\<close> from
  an offset.
\<close>

definition fastStartsWith :: "string \<Rightarrow> string \<Rightarrow> bool" where
  "fastStartsWith haystack needle = prefix needle haystack"

definition fastStartsWithFrom :: "string \<Rightarrow> string \<Rightarrow> nat \<Rightarrow> bool" where
  "fastStartsWithFrom haystack needle start = prefix needle (drop start haystack)"

text \<open>
  Modelled from the spec: the bodies of \<open>getBit\<close> and \<open>setBit\<close> (module utils, declared
  only). The specification describes the mask as a bitmask-encoded flag set: \<open>setBit\<close>
  switches the bits of a mask on, \<open>getBit\<close> tests them.
\<close>

definition getBit :: "32 word \<Rightarrow> 32 word \<Rightarrow> bool" where
  "getBit n m = (n AND m \<noteq> 0)"

definition setBit :: "32 word \<Rightarrow> 32 word \<Rightarrow> 32 word" where
  "setBit n m = n OR m"

section \<open>The hostname anchor predicate\<close>

definition isAnchoredByHostname :: "string \<Rightarrow> string \<Rightarrow> bool" where
  "isAnchoredByHostname filterHostname hostname =
     (if length filterHostname = 0 then True
      else if length filterHostname > length hostname then False
      else
        (let matchIndex = indexOf hostname filterHostname in
         if matchIndex = - 1 then False
         else
           (matchIndex = 0 \<and>
              (length hostname = length filterHostname \<or>
               charAt filterHostname (int (length filterHostname) - 1) = Some CHR ''.'' \<or>
               charAt hostname (int (length filterHostname)) = Some CHR ''.'')) \<or>
           ((charAt hostname (matchIndex - 1) = Some CHR ''.'' \<or>
             charAt filterHostname 0 = Some CHR ''.'') \<and>
              (int (length hostname) - matchIndex = int (length filterHostname) \<or>
               charAt filterHostname (int (length filterHostname) - 1) = Some CHR ''.'' \<or>
               charAt hostname (matchIndex + int (length filterHostname)) = Some CHR ''.''))))"

text \<open>
  The contract of the predicate in the specification's words: an occurrence of the filter
  hostname at position \<open>i\<close>, the leftmost such position, and the boundary rules there.
\<close>

definition occursAt :: "'a list \<Rightarrow> 'a list \<Rightarrow> nat \<Rightarrow> bool" where
  "occursAt needle hay i = (i + length needle \<le> length hay \<and> take (length needle) (drop i hay) = needle)"

definition leftmostAt :: "'a list \<Rightarrow> 'a list \<Rightarrow> nat \<Rightarrow> bool" where
  "leftmostAt needle hay i = (occursAt needle hay i \<and> (\<forall>j<i. \<not> occursAt needle hay j))"

definition endsWithDot :: "string \<Rightarrow> bool" where
  "endsWithDot s = (s \<noteq> [] \<and> last s = CHR ''.'')"

definition startsWithDot :: "string \<Rightarrow> bool" where
  "startsWithDot s = (s \<noteq> [] \<and> hd s = CHR ''.'')"

definition dotAt :: "string \<Rightarrow> nat \<Rightarrow> bool" where
  "dotAt s i = (i < length s \<and> s ! i = CHR ''.'')"

definition boundaryRules :: "string \<Rightarrow> string \<Rightarrow> nat \<Rightarrow> bool" where
  "boundaryRules filterHostname hostname i =
     (if i = 0 then
        filterHostname = hostname \<or> endsWithDot filterHostname \<or>
        dotAt hostname (length filterHostname)
      else
        (dotAt hostname (i - 1) \<or> startsWithDot filterHostname) \<and>
        (i + length filterHostname = length hostname \<or> endsWithDot filterHostname \<or>
         dotAt hostname (i + length filterHostname)))"

definition anchoredSpec :: "string \<Rightarrow> string \<Rightarrow> bool" where
  "anchoredSpec filterHostname hostname =
     (filterHostname = [] \<or>
      (length filterHostname \<le> length hostname \<and>
       (\<exists>i. leftmostAt filterHostname hostname i \<and> boundaryRules filterHostname hostname i)))"

section \<open>Network filter matching\<close>

definition getUrlAfterHostname :: "string \<Rightarrow> string \<Rightarrow> string" where
  "getUrlAfterHostname url hostname =
     substring url (indexOf url hostname + int (length hostname))"

text \<open>
  Modelled from the spec: the classes NetworkFilter (parsing/network-filter) and the
  interface IRequest (request/interface) are imported by the matcher and are not among
  the sources. The matcher reads a filter through its accessors only, so a filter is the
  record of what they return; \<open>getRegex\<close> stands for \<open>getRegex().test\<close>, the compiled
  pattern matcher, which the specification takes as pure. A request is the record of its
  fields, \<open>fuzzySignature\<close> being the slot that is undefined until first needed.
\<close>

record NetworkFilter =
  isHostnameAnchor :: bool
  isRegex :: bool
  isLeftAnchor :: bool
  isRightAnchor :: bool
  isFuzzy :: bool
  firstParty :: bool
  thirdParty :: bool
  isCptAllowed :: "int \<Rightarrow> bool"
  hasOptDomains :: bool
  getOptDomains :: "string fset"
  hasOptNotDomains :: bool
  getOptNotDomains :: "string fset"
  getFilter :: string
  getRegex :: "string \<Rightarrow> bool"
  getHostname :: string
  getFuzzySignature :: "32 word list"

record Request =
  url :: string
  hostname :: string
  sourceHostname :: string
  sourceGD :: string
  hostGD :: string
  cpt :: int
  fuzzySignature :: "32 word list option"

text \<open>
  The loop of the fuzzy matcher: for each symbol of the filter's signature, search the
  request's signature from \<open>lastIndex\<close> on, fail when it is absent and move
  \<open>lastIndex\<close> one past the position found.
\<close>

fun fuzzyLoop :: "'a list \<Rightarrow> 'a list \<Rightarrow> nat \<Rightarrow> bool" where
  "fuzzyLoop [] requestSignature lastIndex = True"
| "fuzzyLoop (c # cs) requestSignature lastIndex =
     (let j = arrayIndexOf requestSignature c lastIndex
      in if j = - 1 then False else fuzzyLoop cs requestSignature (nat (j + 1)))"

text \<open>
  The order-preserving subsequence test in the specification's words: there are strictly
  increasing positions of the request's signature that hold the symbols of the filter's
  signature, in order.
\<close>

definition foundInOrder :: "'a list \<Rightarrow> 'a list \<Rightarrow> bool" where
  "foundInOrder signature requestSignature =
     (\<exists>ps. sorted_wrt (<) ps \<and> (\<forall>p \<in> set ps. p < length requestSignature) \<and>
           map (\<lambda>p. requestSignature ! p) ps = signature)"

text \<open>
  \<open>createFuzzySignature\<close> (module utils, declared only) is a parameter. The matcher
  writes the signature of the URL into the request when the slot is empty, so it returns
  the request next to its verdict.
\<close>

definition checkPatternFuzzyFilter ::
  "(string \<Rightarrow> 32 word list) \<Rightarrow> NetworkFilter \<Rightarrow> Request \<Rightarrow> bool \<times> Request" where
  "checkPatternFuzzyFilter createFuzzySignature flt request =
     (let signature = getFuzzySignature flt;
          request' = (case fuzzySignature request of
                        None \<Rightarrow> request\<lparr>fuzzySignature := Some (createFuzzySignature (url request))\<rparr>
                      | Some _ \<Rightarrow> request);
          requestSignature = (case fuzzySignature request' of None \<Rightarrow> [] | Some sg \<Rightarrow> sg)
      in if length signature > length requestSignature then (False, request')
         else (fuzzyLoop signature requestSignature 0, request'))"

text \<open>
  The signature the fuzzy matcher compares a filter with: the one the request holds, or
  the signature of its URL when the slot is empty.
\<close>

definition requestSignatureOf :: "(string \<Rightarrow> 32 word list) \<Rightarrow> Request \<Rightarrow> 32 word list" where
  "requestSignatureOf createFuzzySignature request =
     (case fuzzySignature request of
        None \<Rightarrow> createFuzzySignature (url request)
      | Some sg \<Rightarrow> sg)"

definition checkPatternPlainFilter :: "NetworkFilter \<Rightarrow> Request \<Rightarrow> bool" where
  "checkPatternPlainFilter flt request = (indexOf (url request) (getFilter flt) \<noteq> - 1)"

definition checkPatternRightAnchorFilter :: "NetworkFilter \<Rightarrow> Request \<Rightarrow> bool" where
  "checkPatternRightAnchorFilter flt request = suffix (getFilter flt) (url request)"

definition checkPatternLeftAnchorFilter :: "NetworkFilter \<Rightarrow> Request \<Rightarrow> bool" where
  "checkPatternLeftAnchorFilter flt request = fastStartsWith (url request) (getFilter flt)"

definition checkPatternLeftRightAnchorFilter :: "NetworkFilter \<Rightarrow> Request \<Rightarrow> bool" where
  "checkPatternLeftRightAnchorFilter flt request = (url request = getFilter flt)"

definition checkPatternRegexFilter :: "NetworkFilter \<Rightarrow> Request \<Rightarrow> bool" where
  "checkPatternRegexFilter flt request = getRegex flt (url request)"

definition checkPatternHostnameAnchorRegexFilter :: "NetworkFilter \<Rightarrow> Request \<Rightarrow> bool" where
  "checkPatternHostnameAnchorRegexFilter flt request =
     (if isAnchoredByHostname (getHostname flt) (hostname request) then
        (let urlAfterHostname = getUrlAfterHostname (url request) (getHostname flt)
         in checkPatternRegexFilter flt (request\<lparr>url := urlAfterHostname\<rparr>))
      else False)"

definition checkPatternHostnameRightAnchorFilter :: "NetworkFilter \<Rightarrow> Request \<Rightarrow> bool" where
  "checkPatternHostnameRightAnchorFilter flt request =
     (if isAnchoredByHostname (getHostname flt) (hostname request) then
        (let urlAfterHostname = getUrlAfterHostname (url request) (getHostname flt)
         in getFilter flt = urlAfterHostname)
      else False)"

definition checkPatternHostnameAnchorFilter :: "NetworkFilter \<Rightarrow> Request \<Rightarrow> bool" where
  "checkPatternHostnameAnchorFilter flt request =
     (if isAnchoredByHostname (getHostname flt) (hostname request) then
        (let urlAfterHostname = getUrlAfterHostname (url request) (getHostname flt)
         in fastStartsWith urlAfterHostname (getFilter flt))
      else False)"

definition checkPatternHostnameAnchorFuzzyFilter ::
  "(string \<Rightarrow> 32 word list) \<Rightarrow> NetworkFilter \<Rightarrow> Request \<Rightarrow> bool \<times> Request" where
  "checkPatternHostnameAnchorFuzzyFilter createFuzzySignature flt request =
     (if isAnchoredByHostname (getHostname flt) (hostname request) then
        checkPatternFuzzyFilter createFuzzySignature flt request
      else (False, request))"

definition checkPattern ::
  "(string \<Rightarrow> 32 word list) \<Rightarrow> NetworkFilter \<Rightarrow> Request \<Rightarrow> bool \<times> Request" where
  "checkPattern createFuzzySignature flt request =
     (if isHostnameAnchor flt then
        (if isRegex flt then (checkPatternHostnameAnchorRegexFilter flt request, request)
         else if isRightAnchor flt then (checkPatternHostnameRightAnchorFilter flt request, request)
         else if isFuzzy flt then checkPatternHostnameAnchorFuzzyFilter createFuzzySignature flt request
         else (checkPatternHostnameAnchorFilter flt request, request))
      else if isRegex flt then (checkPatternRegexFilter flt request, request)
      else if isLeftAnchor flt \<and> isRightAnchor flt then
        (checkPatternLeftRightAnchorFilter flt request, request)
      else if isLeftAnchor flt then (checkPatternLeftAnchorFilter flt request, request)
      else if isRightAnchor flt then (checkPatternRightAnchorFilter flt request, request)
      else if isFuzzy flt then checkPatternFuzzyFilter createFuzzySignature flt request
      else (checkPatternPlainFilter flt request, request))"

definition checkOptions :: "NetworkFilter \<Rightarrow> Request \<Rightarrow> bool" where
  "checkOptions flt request =
     (if \<not> isCptAllowed flt (cpt request) then False
      else
        (let sHost = sourceHostname request;
             sHostGD = sourceGD request;
             isFirstParty = (sHostGD = hostGD request)
         in if \<not> firstParty flt \<and> isFirstParty then False
            else if \<not> thirdParty flt \<and> \<not> isFirstParty then False
            else if hasOptDomains flt \<and> 0 < fcard (getOptDomains flt) \<and>
                    \<not> (sHostGD |\<in>| getOptDomains flt \<or> sHost |\<in>| getOptDomains flt)
              then False
            else if hasOptNotDomains flt \<and> 0 < fcard (getOptNotDomains flt) \<and>
                    (sHostGD |\<in>| getOptNotDomains flt \<or> sHost |\<in>| getOptNotDomains flt)
              then False
            else True))"

text \<open>\<open>checkOptions(filter, request) && checkPattern(filter, request)\<close>: the pattern is
  only looked at when the options pass.\<close>

definition matchNetworkFilter ::
  "(string \<Rightarrow> 32 word list) \<Rightarrow> NetworkFilter \<Rightarrow> Request \<Rightarrow> bool \<times> Request" where
  "matchNetworkFilter createFuzzySignature flt request =
     (if checkOptions flt request then checkPattern createFuzzySignature flt request
      else (False, request))"

section \<open>Cosmetic filters\<close>

text \<open>The enumeration \<open>COSMETICS_MASK\<close>.\<close>

definition COSMETICS_MASK_unhide :: "32 word" where
  "COSMETICS_MASK_unhide = push_bit 0 1"

definition COSMETICS_MASK_scriptInject :: "32 word" where
  "COSMETICS_MASK_scriptInject = push_bit 1 1"

definition COSMETICS_MASK_scriptBlock :: "32 word" where
  "COSMETICS_MASK_scriptBlock = push_bit 2 1"

text \<open>
  The class \<open>CosmeticFilter\<close>. The fields \<open>id\<close> and \<open>mask\<close> carry a suffix, their names
  being constants of the logic; \<open>rawLine\<close> and \<open>hostnamesArray\<close> are \<open>null\<close> (\<open>None\<close>)
  after construction.
\<close>

record CosmeticFilter =
  id_cf :: "32 word"
  mask_cf :: "32 word"
  selector :: string
  hostnames :: string
  rawLine :: "string option"
  hostnamesArray :: "string list option"

definition isUnhide :: "CosmeticFilter \<Rightarrow> bool" where
  "isUnhide f = getBit (mask_cf f) COSMETICS_MASK_unhide"

definition isScriptInject :: "CosmeticFilter \<Rightarrow> bool" where
  "isScriptInject f = getBit (mask_cf f) COSMETICS_MASK_scriptInject"

definition isScriptBlock :: "CosmeticFilter \<Rightarrow> bool" where
  "isScriptBlock f = getBit (mask_cf f) COSMETICS_MASK_scriptBlock"

definition isCosmeticFilter :: "CosmeticFilter \<Rightarrow> bool" where
  "isCosmeticFilter f = True"

definition isNetworkFilter :: "CosmeticFilter \<Rightarrow> bool" where
  "isNetworkFilter f = False"

definition getSelector :: "CosmeticFilter \<Rightarrow> string" where
  "getSelector f = selector f"

definition hasHostnames :: "CosmeticFilter \<Rightarrow> bool" where
  "hasHostnames f = (hostnames f \<noteq> [])"

definition toString :: "CosmeticFilter \<Rightarrow> string" where
  "toString f =
     (if hasHostnames f then hostnames f else [])
     @ (if isUnhide f then ''#@#'' else ''##'')
     @ (if isScriptInject f then ''script:inject('' @ selector f @ '')''
        else if isScriptBlock f then ''script:contains('' @ selector f @ '')''
        else selector f)"

text \<open>
  \<open>getHostnames\<close> fills \<open>hostnamesArray\<close> on its first call: the hostnames split at the
  commas, the longer ones first (a sort by descending length that keeps the order of
  hostnames of equal length). It returns the array and the filter after the call.
\<close>

definition getHostnames :: "CosmeticFilter \<Rightarrow> string list \<times> CosmeticFilter" where
  "getHostnames f =
     (case hostnamesArray f of
        None \<Rightarrow>
          (let arr = (if hasHostnames f
                      then sort_key (\<lambda>h. - int (length h)) (splitOn CHR '','' (hostnames f))
                      else [])
           in (arr, f\<lparr>hostnamesArray := Some arr\<rparr>))
      | Some arr \<Rightarrow> (arr, f))"

text \<open>
  The first loop of \<open>getTokensSelector\<close>: \<open>i\<close> runs from the last index down to 0 and
  stops at the first code unit that is \<open>+\<close> (43), \<open>>\<close> (62) or \<open>~\<close> (126); \<open>sepIndex\<close>
  stays 0 when there is none. The argument counts the indices still to visit.
\<close>

fun findSepIndex :: "string \<Rightarrow> nat \<Rightarrow> nat" where
  "findSepIndex sel 0 = 0"
| "findSepIndex sel (Suc i) =
     (let code = (of_char (sel ! i) :: nat)
      in if code = 43 \<or> code = 62 \<or> code = 126 then i else findSepIndex sel i)"

text \<open>
  The second loop: \<open>i\<close> runs from \<open>sepIndex\<close> to the end over the code units still to
  visit, with the depth \<open>inside\<close>, the start of the current span and the tokens so far.
  \<open>tokenizeCSS\<close> (module utils, declared only) is a parameter.
\<close>

fun tokensLoop ::
  "(string \<Rightarrow> 'tok list) \<Rightarrow> string \<Rightarrow> string \<Rightarrow> nat \<Rightarrow> int \<Rightarrow> nat \<Rightarrow> 'tok list
     \<Rightarrow> int \<times> nat \<times> 'tok list" where
  "tokensLoop tokenizeCSS sel [] i inside start tokens = (inside, start, tokens)"
| "tokensLoop tokenizeCSS sel (c # cs) i inside start tokens =
     (let code = (of_char c :: nat)
      in if code = 91 then
           tokensLoop tokenizeCSS sel cs (Suc i) (inside + 1) start
             (if inside = 0 \<and> start < i then tokens @ tokenizeCSS (slice sel start i) else tokens)
         else if code = 93 then
           tokensLoop tokenizeCSS sel cs (Suc i) (inside - 1) (i + 1) tokens
         else tokensLoop tokenizeCSS sel cs (Suc i) inside start tokens)"

definition getTokensSelector :: "(string \<Rightarrow> 'tok list) \<Rightarrow> CosmeticFilter \<Rightarrow> 'tok list" where
  "getTokensSelector tokenizeCSS f =
     (if isScriptInject f \<or> isScriptBlock f then []
      else
        (let sepIndex = findSepIndex (selector f) (length (selector f))
         in case tokensLoop tokenizeCSS (selector f) (drop sepIndex (selector f))
                   sepIndex 0 sepIndex [] of
              (inside, start, tokens) \<Rightarrow>
                if inside = 0 \<and> start < length (selector f)
                then tokens @ tokenizeCSS (slice (selector f) start (length (selector f)))
                else tokens))"

definition getTokens :: "(string \<Rightarrow> 'tok list) \<Rightarrow> CosmeticFilter \<Rightarrow> 'tok list list" where
  "getTokens tokenizeCSS f = [getTokensSelector tokenizeCSS f]"

text \<open>
  The methods of a cosmetic filter, and the filter as a call leaves it: \<open>getHostnames\<close>
  is the only method that assigns a field.
\<close>

datatype CosmeticMethod =
  IsCosmeticFilter | IsNetworkFilter | ToString | GetTokens | GetTokensSelector
  | GetSelector | HasHostnames | GetHostnames | IsUnhide | IsScriptInject | IsScriptBlock

fun afterCall :: "CosmeticFilter \<Rightarrow> CosmeticMethod \<Rightarrow> CosmeticFilter" where
  "afterCall f GetHostnames = snd (getHostnames f)"
| "afterCall f _ = f"

definition afterCalls :: "CosmeticFilter \<Rightarrow> CosmeticMethod list \<Rightarrow> CosmeticFilter" where
  "afterCalls f ms = foldl afterCall f ms"

section \<open>Parsing a cosmetic filter\<close>

text \<open>
  The body of \<open>parseCosmeticFilter\<close> up to its rejection test: the mask, the selector
  and the hostnames it has computed there.
\<close>

definition parseCosmeticFields :: "string \<Rightarrow> 32 word \<times> string \<times> string" where
  "parseCosmeticFields line =
     (let sharpIndex = indexOf line ''#'';
          afterSharpIndex = sharpIndex + 1;
          unhide = (charAt line afterSharpIndex = Some CHR ''@'');
          mask0 = (if unhide then setBit 0 COSMETICS_MASK_unhide else 0);
          suffixStartIndex = (if unhide then afterSharpIndex + 1 + 1 else afterSharpIndex + 1);
          hosts = (if sharpIndex > 0 then substring2 line 0 sharpIndex else []);
          sel = substr line suffixStartIndex
      in if fastStartsWith sel ''script:'' then
           (let scriptMethodIndex = int (length ''script:'');
                scriptSelectorIndexEnd = int (length sel) - 1
            in if fastStartsWithFrom sel ''inject('' (nat scriptMethodIndex) then
                 (setBit mask0 COSMETICS_MASK_scriptInject,
                  substring2 sel (scriptMethodIndex + int (length ''inject(''))
                    scriptSelectorIndexEnd,
                  hosts)
               else if fastStartsWithFrom sel ''contains('' (nat scriptMethodIndex) then
                 (let scriptSelectorIndexStart = scriptMethodIndex + int (length ''contains('')
                  in if charAt sel scriptSelectorIndexStart = Some CHR ''/'' \<and>
                        charAt sel (scriptSelectorIndexEnd - 1) = Some CHR ''/''
                     then (setBit mask0 COSMETICS_MASK_scriptBlock,
                           substring2 sel (scriptSelectorIndexStart + 1)
                             (scriptSelectorIndexEnd - 1),
                           hosts)
                     else (setBit mask0 COSMETICS_MASK_scriptBlock,
                           substring2 sel scriptSelectorIndexStart scriptSelectorIndexEnd,
                           hosts))
               else (mask0, substring2 sel scriptMethodIndex scriptSelectorIndexEnd, hosts))
         else (mask0, sel, hosts))"

text \<open>
  The rejection test and the construction. A string is never \<open>null\<close>, so the first
  disjunct of the source is false and is left out. \<open>fastHash\<close> (module utils, declared
  only) is a parameter.
\<close>

definition parseCosmeticFilter :: "(string \<Rightarrow> 32 word) \<Rightarrow> string \<Rightarrow> CosmeticFilter option" where
  "parseCosmeticFilter fastHash line =
     (case parseCosmeticFields line of
        (m, sel, hosts) \<Rightarrow>
          if length sel = 0 \<or> suffix ''}'' sel \<or> indexOf sel ''##'' \<noteq> - 1 \<or>
             (getBit m COSMETICS_MASK_unhide \<and> length hosts = 0)
          then None
          else Some \<lparr>id_cf = fastHash line, mask_cf = m, selector = sel, hostnames = hosts,
                      rawLine = None, hostnamesArray = None\<rparr>)"

section \<open>Sample inputs\<close>

text \<open>Filters and requests at which the theorems below are instantiated.\<close>

definition sampleFilter :: NetworkFilter where
  "sampleFilter =
     \<lparr>isHostnameAnchor = True, isRegex = False, isLeftAnchor = False, isRightAnchor = False,
      isFuzzy = False, firstParty = True, thirdParty = True, isCptAllowed = (\<lambda>t. True),
      hasOptDomains = True, getOptDomains = {|''shop.org''|},
      hasOptNotDomains = False, getOptNotDomains = {||},
      getFilter = ''/ads'', getRegex = (\<lambda>u. False), getHostname = ''example.com'',
      getFuzzySignature = [1, 2, 3]\<rparr>"

definition sampleRequest :: Request where
  "sampleRequest =
     \<lparr>url = ''https://example.com/ads/banner.png'', hostname = ''example.com'',
      sourceHostname = ''www.shop.org'', sourceGD = ''shop.org'', hostGD = ''example.com'',
      cpt = 2, fuzzySignature = Some [0, 1, 5, 2, 9, 3]\<rparr>"

definition sampleFuzzyFilter :: NetworkFilter where
  "sampleFuzzyFilter = sampleFilter\<lparr>isHostnameAnchor := False, isFuzzy := True\<rparr>"

definition uncachedRequest :: Request where
  "uncachedRequest = sampleRequest\<lparr>fuzzySignature := None\<rparr>"

definition otherSourceRequest :: Request where
  "otherSourceRequest =
     uncachedRequest\<lparr>sourceHostname := ''www.other.net'', sourceGD := ''other.net''\<rparr>"

section \<open>Occurrences and \<open>indexOf\<close>\<close>

lemma occursAt_prefix: "occursAt needle hay i \<longleftrightarrow> i \<le> length hay \<and> prefix needle (drop i hay)"
  unfolding occursAt_def prefix_def
  by (metis add_diff_cancel_left' add_leD1 append_eq_conv_conj append_take_drop_id diff_diff_cancel diff_le_self le_add_diff_inverse length_append length_drop length_take min.absorb2 nat_add_left_cancel_le)

lemma indexOfFrom_cases:
  "(indexOfFrom hay needle k = - 1 \<and> (\<forall>i. \<not> occursAt needle hay i)) \<or>
   (\<exists>i. indexOfFrom hay needle k = int (k + i) \<and> leftmostAt needle hay i)"
proof (induction hay arbitrary: k)
  case Nil
  then show ?case by (auto simp: occursAt_def leftmostAt_def)
next
  case (Cons c cs)
  show ?case
  proof (cases "prefix needle (c # cs)")
    case True
    then have "leftmostAt needle (c # cs) 0" by (simp add: leftmostAt_def occursAt_prefix)
    with True show ?thesis by auto
  next
    case False
    have shift: "occursAt needle (c # cs) (Suc j) = occursAt needle cs j" for j
      by (simp add: occursAt_def)
    have no0: "\<not> occursAt needle (c # cs) 0" using False by (simp add: occursAt_prefix)
    from Cons.IH[of "Suc k"] show ?thesis
    proof
      assume a: "indexOfFrom cs needle (Suc k) = - 1 \<and> (\<forall>i. \<not> occursAt needle cs i)"
      have "\<not> occursAt needle (c # cs) i" for i
        using a no0 shift by (cases i) auto
      with a False show ?thesis by simp
    next
      assume "\<exists>i. indexOfFrom cs needle (Suc k) = int (Suc k + i) \<and> leftmostAt needle cs i"
      then obtain i where i: "indexOfFrom cs needle (Suc k) = int (Suc k + i)" "leftmostAt needle cs i" by blast
      have "leftmostAt needle (c # cs) (Suc i)"
        unfolding leftmostAt_def
      proof (intro conjI allI impI)
        show "occursAt needle (c # cs) (Suc i)" using i(2) shift by (simp add: leftmostAt_def)
        fix j assume "j < Suc i"
        then show "\<not> occursAt needle (c # cs) j"
          using no0 shift i(2) by (cases j) (auto simp: leftmostAt_def)
      qed
      with i(1) False show ?thesis by (intro disjI2 exI[of _ "Suc i"]) simp
    qed
  qed
qed


lemma leftmostAt_unique: "leftmostAt needle hay i \<Longrightarrow> leftmostAt needle hay j \<Longrightarrow> i = j"
  unfolding leftmostAt_def by (meson linorder_neqE_nat)

lemma indexOf_absent: "indexOf hay needle = - 1 \<longleftrightarrow> (\<forall>i. \<not> occursAt needle hay i)"
  using indexOfFrom_cases[of hay needle 0] unfolding indexOf_def leftmostAt_def by auto

lemma indexOf_leftmost: "indexOf hay needle = int i \<longleftrightarrow> leftmostAt needle hay i"
  using indexOfFrom_cases[of hay needle 0] leftmostAt_unique[of needle hay]
  unfolding indexOf_def by (auto simp: leftmostAt_def)

lemma charAt_last: "s \<noteq> [] \<Longrightarrow> charAt s (int (length s) - 1) = Some c \<longleftrightarrow> last s = c"
  by (cases s rule: rev_cases) (auto simp: charAt_def nth_append)

lemma charAt_nat: "charAt s (int i) = Some c \<longleftrightarrow> i < length s \<and> s ! i = c"
  by (auto simp: charAt_def)

lemma charAt_hd: "charAt s 0 = Some c \<longleftrightarrow> s \<noteq> [] \<and> hd s = c"
  by (cases s) (auto simp: charAt_def)

lemma charAt_pred: "charAt s (int i - 1) = Some c \<longleftrightarrow> 0 < i \<and> i - 1 < length s \<and> s ! (i - 1) = c"
  by (cases i) (auto simp: charAt_def nat_diff_distrib)

section \<open>The anchor predicate meets its contract\<close>

lemma anchored_code:
  assumes ne: "fh \<noteq> []" and le: "length fh \<le> length h"
    and idx: "indexOf h fh = int i"
  shows "isAnchoredByHostname fh h \<longleftrightarrow>
     (i = 0 \<and>
        (length h = length fh \<or>
         charAt fh (int (length fh) - 1) = Some CHR ''.'' \<or>
         charAt h (int (length fh)) = Some CHR ''.'')) \<or>
     ((charAt h (int i - 1) = Some CHR ''.'' \<or>
       charAt fh 0 = Some CHR ''.'') \<and>
        (int (length h) - int i = int (length fh) \<or>
         charAt fh (int (length fh) - 1) = Some CHR ''.'' \<or>
         charAt h (int i + int (length fh)) = Some CHR ''.''))"
  unfolding isAnchoredByHostname_def Let_def idx using ne le by simp

lemma anchored_at_leftmost:
  assumes ne: "fh \<noteq> []" and le: "length fh \<le> length h"
    and lm: "leftmostAt fh h i"
  shows "isAnchoredByHostname fh h = boundaryRules fh h i"
proof -
  have idx: "indexOf h fh = int i" using lm by (simp add: indexOf_leftmost)
  have occ: "occursAt fh h i" using lm by (simp add: leftmostAt_def)
  have fit: "i + length fh \<le> length h" using occ by (simp add: occursAt_def)
  have sfx: "int (length h) - int i = int (length fh) \<longleftrightarrow>
             i + length fh = length h" by linarith
  have nxt: "charAt h (int i + int (length fh)) = Some CHR ''.'' \<longleftrightarrow>
             dotAt h (i + length fh)"
    using charAt_nat[of h "i + length fh"] by (simp add: dotAt_def)
  have nxt0: "charAt h (int (length fh)) = Some CHR ''.'' \<longleftrightarrow>
             dotAt h (length fh)"
    by (simp add: charAt_nat dotAt_def)
  have lst: "charAt fh (int (length fh) - 1) = Some CHR ''.'' \<longleftrightarrow>
             endsWithDot fh"
    using ne by (simp add: charAt_last endsWithDot_def)
  have fst: "charAt fh 0 = Some CHR ''.'' \<longleftrightarrow> startsWithDot fh"
    by (simp add: charAt_hd startsWithDot_def)
  have prv: "charAt h (int i - 1) = Some CHR ''.'' \<longleftrightarrow> 0 < i \<and> dotAt h (i - 1)"
    using fit ne by (auto simp: charAt_pred dotAt_def)
  have code: "isAnchoredByHostname fh h \<longleftrightarrow>
     (i = 0 \<and> (length h = length fh \<or> endsWithDot fh \<or>
        dotAt h (length fh))) \<or>
     (((0 < i \<and> dotAt h (i - 1)) \<or> startsWithDot fh) \<and>
        (i + length fh = length h \<or> endsWithDot fh \<or>
         dotAt h (i + length fh)))"
    unfolding anchored_code[OF ne le idx] sfx nxt nxt0 lst fst prv ..
  show ?thesis
  proof (cases "i = 0")
    case True
    have whole: "length h = length fh \<longleftrightarrow> fh = h"
      using occ True by (auto simp: occursAt_def)
    have "isAnchoredByHostname fh h \<longleftrightarrow>
       fh = h \<or> endsWithDot fh \<or> dotAt h (length fh)"
      unfolding code using True whole by auto
    then show ?thesis using True by (simp add: boundaryRules_def)
  next
    case False
    then show ?thesis unfolding code boundaryRules_def by simp
  qed
qed

lemma anchored_absent:
  assumes "fh \<noteq> []" and "\<forall>i. \<not> occursAt fh h i"
  shows "\<not> isAnchoredByHostname fh h"
proof -
  have "indexOf h fh = - 1" using assms(2) by (simp add: indexOf_absent)
  then show ?thesis using assms(1) by (simp add: isAnchoredByHostname_def Let_def)
qed

lemma isAnchoredByHostname_eq_spec:
  "isAnchoredByHostname fh h = anchoredSpec fh h"
proof (cases "fh = []")
  case True
  then show ?thesis by (simp add: isAnchoredByHostname_def anchoredSpec_def)
next
  case ne: False
  show ?thesis
  proof (cases "length fh \<le> length h")
    case False
    with ne show ?thesis by (simp add: isAnchoredByHostname_def anchoredSpec_def)
  next
    case le: True
    show ?thesis
    proof (cases "\<exists>i. leftmostAt fh h i")
      case True
      then obtain i where i: "leftmostAt fh h i" by blast
      have "(\<exists>j. leftmostAt fh h j \<and> boundaryRules fh h j)
            = boundaryRules fh h i"
        using i leftmostAt_unique[OF i] by blast
      then have "anchoredSpec fh h = boundaryRules fh h i"
        using ne le unfolding anchoredSpec_def by simp
      with anchored_at_leftmost[OF ne le i] show ?thesis by simp
    next
      case False
      then have none: "\<forall>i. \<not> occursAt fh h i"
        using indexOfFrom_cases[of h fh 0] by blast
      from False have "\<not> anchoredSpec fh h"
        using ne unfolding anchoredSpec_def by blast
      with anchored_absent[OF ne none] show ?thesis by simp
    qed
  qed
qed

text \<open>
  Claim C1. For every filter hostname and hostname, \<open>isAnchoredByHostname\<close> returns true
  exactly when the filter hostname is empty, or it is no longer than the hostname, occurs
  in it, and its leftmost occurrence meets the boundary rules: at position 0 it is the
  whole hostname, or the filter hostname ends with a dot, or a dot follows the match;
  elsewhere a dot precedes the match or the filter hostname starts with a dot, and the
  match is a suffix of the hostname, or the filter hostname ends with a dot, or a dot
  follows the match. The five examples of the specification evaluate as it says.
\<close>

theorem C1_anchor_contract:
  "(isAnchoredByHostname fh h \<longleftrightarrow>
      fh = [] \<or>
      (length fh \<le> length h \<and> (\<exists>i. leftmostAt fh h i \<and> boundaryRules fh h i)))
   \<and> isAnchoredByHostname '''' ''x.com''
   \<and> isAnchoredByHostname ''com'' ''x.com''
   \<and> \<not> isAnchoredByHostname ''example.com'' ''notexample.com''
   \<and> \<not> isAnchoredByHostname ''ample.com'' ''example.com''
   \<and> isAnchoredByHostname ''x.com'' ''x.com''"
proof (intro conjI)
  show "isAnchoredByHostname fh h \<longleftrightarrow>
      fh = [] \<or> (length fh \<le> length h \<and> (\<exists>i. leftmostAt fh h i \<and> boundaryRules fh h i))"
    using isAnchoredByHostname_eq_spec[of fh h] by (simp add: anchoredSpec_def)
  show "isAnchoredByHostname '''' ''x.com''"
    by (simp add: isAnchoredByHostname_def)
  show "isAnchoredByHostname ''com'' ''x.com''"
    by (simp add: isAnchoredByHostname_def indexOf_def charAt_def)
  show "\<not> isAnchoredByHostname ''example.com'' ''notexample.com''"
    by (simp add: isAnchoredByHostname_def indexOf_def charAt_def)
  show "\<not> isAnchoredByHostname ''ample.com'' ''example.com''"
    by (simp add: isAnchoredByHostname_def indexOf_def charAt_def)
  show "isAnchoredByHostname ''x.com'' ''x.com''"
    by (simp add: isAnchoredByHostname_def indexOf_def charAt_def)
qed

theorem C1_witness:
  "isAnchoredByHostname ''ads.x.com'' ''www.ads.x.com'' \<and>
   (\<exists>i. leftmostAt ''ads.x.com'' ''www.ads.x.com'' i \<and> boundaryRules ''ads.x.com'' ''www.ads.x.com'' i)"
proof -
  have a: "isAnchoredByHostname ''ads.x.com'' ''www.ads.x.com''"
    by (simp add: isAnchoredByHostname_def indexOf_def charAt_def)
  from C1_anchor_contract[of "''ads.x.com''" "''www.ads.x.com''"] a show ?thesis by simp
qed

text \<open>
  Claim C4. The anchor predicate tries the leftmost occurrence only: there are a filter
  hostname and a hostname for which it returns false, the leftmost occurrence failing
  the boundary rules, although a later occurrence meets them.
\<close>

theorem C4_only_leftmost_occurrence_is_tried:
  "\<exists>fh h i j. \<not> isAnchoredByHostname fh h \<and> indexOf h fh = int i \<and> \<not> boundaryRules fh h i \<and>
      i < j \<and> occursAt fh h j \<and> boundaryRules fh h j"
proof -
  have "\<not> isAnchoredByHostname ''a.b'' ''xa.b.a.b''"
    by (simp add: isAnchoredByHostname_def indexOf_def charAt_def)
  moreover have "indexOf ''xa.b.a.b'' ''a.b'' = int 1"
    by (simp add: indexOf_def)
  moreover have "\<not> boundaryRules ''a.b'' ''xa.b.a.b'' 1"
    by (simp add: boundaryRules_def dotAt_def startsWithDot_def endsWithDot_def)
  moreover have "occursAt ''a.b'' ''xa.b.a.b'' 5"
    by (simp add: occursAt_def)
  moreover have "boundaryRules ''a.b'' ''xa.b.a.b'' 5"
    by (simp add: boundaryRules_def dotAt_def startsWithDot_def endsWithDot_def)
  ultimately show ?thesis by (intro exI[of _ "''a.b''"] exI[of _ "''xa.b.a.b''"] exI[of _ 1] exI[of _ 5]) simp
qed

section \<open>The fuzzy matcher is a subsequence test\<close>

lemma arrayIndexOfAux_absent: "c \<notin> set xs \<Longrightarrow> arrayIndexOfAux xs c k = - 1"
  by (induction xs arbitrary: k) auto

lemma arrayIndexOfAux_first:
  "c \<notin> set pre \<Longrightarrow> arrayIndexOfAux (pre @ c # post) c k = int (k + length pre)"
  by (induction pre arbitrary: k) auto

lemma subseq_skip_prefix:
  "c \<notin> set pre \<Longrightarrow> subseq (c # cs) (pre @ c # post) \<longleftrightarrow> subseq cs post"
  by (induction pre) auto

lemma fuzzyLoop_subseq: "fuzzyLoop sg rs k = subseq sg (drop k rs)"
proof (induction sg arbitrary: k)
  case Nil
  show ?case by simp
next
  case (Cons c cs)
  show ?case
  proof (cases "c \<in> set (drop k rs)")
    case False
    then have "arrayIndexOf rs c k = - 1" by (simp add: arrayIndexOf_def arrayIndexOfAux_absent)
    moreover have "\<not> subseq (c # cs) (drop k rs)"
      using False by (meson list.set_intros(1) subseq_order.dual_order.trans subseq_singleton_left subseq_Cons2 list_emb_Nil)
    ultimately show ?thesis by simp
  next
    case True
    then obtain pre post where sp: "drop k rs = pre @ c # post" "c \<notin> set pre"
      by (meson split_list_first)
    have j: "arrayIndexOf rs c k = int (k + length pre)"
      using sp by (simp add: arrayIndexOf_def arrayIndexOfAux_first)
    have "drop (Suc (length pre)) (drop k rs) = post" using sp(1) by simp
    then have rest: "drop (Suc (k + length pre)) rs = post" by (simp add: add.commute)
    have "fuzzyLoop (c # cs) rs k = fuzzyLoop cs rs (Suc (k + length pre))"
      using j by (simp add: nat_add_distrib)
    also have "\<dots> = subseq cs post" using Cons.IH[of "Suc (k + length pre)"] rest by simp
    also have "\<dots> = subseq (c # cs) (drop k rs)" using sp by (simp add: subseq_skip_prefix)
    finally show ?thesis .
  qed
qed

lemma subseq_positions:
  "subseq xs ys \<Longrightarrow> \<exists>ps. sorted_wrt (<) ps \<and> (\<forall>p \<in> set ps. p < length ys) \<and> map (\<lambda>p. ys ! p) ps = xs"
proof (induction rule: list_emb.induct)
  case (list_emb_Nil ys)
  show ?case by (rule exI[of _ "[]"]) simp
next
  case (list_emb_Cons xs ys y)
  then obtain ps where ps: "sorted_wrt (<) ps" "\<forall>p \<in> set ps. p < length ys" "map (\<lambda>p. ys ! p) ps = xs"
    by blast
  show ?case
    by (rule exI[of _ "map Suc ps"]) (use ps in \<open>auto simp: sorted_wrt_map comp_def\<close>)
next
  case (list_emb_Cons2 x y xs ys)
  then obtain ps where ps: "sorted_wrt (<) ps" "\<forall>p \<in> set ps. p < length ys" "map (\<lambda>p. ys ! p) ps = xs"
    by blast
  show ?case
    by (rule exI[of _ "0 # map Suc ps"]) (use ps list_emb_Cons2 in \<open>auto simp: sorted_wrt_map comp_def\<close>)
qed

lemma positions_subseq:
  "sorted_wrt (<) ps \<Longrightarrow> \<forall>p \<in> set ps. p < length ys \<Longrightarrow> subseq (map (\<lambda>p. ys ! p) ps) ys"
proof (induction ys arbitrary: ps)
  case Nil
  then have "ps = []" by (cases ps) auto
  then show ?case by simp
next
  case (Cons y ys)
  define tl_pos where "tl_pos = filter (\<lambda>p. 0 < p) ps"
  define qs where "qs = map (\<lambda>p. p - 1) tl_pos"
  have tl_sorted: "sorted_wrt (<) tl_pos" using Cons.prems(1) by (simp add: tl_pos_def sorted_wrt_filter)
  have qs_sorted: "sorted_wrt (<) qs"
    unfolding qs_def sorted_wrt_map
    by (rule sorted_wrt_mono_rel[OF _ tl_sorted]) (auto simp: tl_pos_def)
  have qs_range: "\<forall>p \<in> set qs. p < length ys"
    using Cons.prems(2) by (auto simp: qs_def tl_pos_def)
  have qs_map: "map (\<lambda>p. (y # ys) ! p) tl_pos = map (\<lambda>p. ys ! p) qs"
    by (auto simp: qs_def tl_pos_def nth_Cons')
  have IH: "subseq (map (\<lambda>p. ys ! p) qs) ys" by (rule Cons.IH[OF qs_sorted qs_range])
  show ?case
  proof (cases ps)
    case Nil
    then show ?thesis by simp
  next
    case (Cons p ps')
    have later: "\<forall>q \<in> set ps'. p < q" using Cons.prems(1) Cons by simp
    show ?thesis
    proof (cases "p = 0")
      case True
      then have "tl_pos = ps'" using later Cons by (auto simp: tl_pos_def filter_id_conv)
      then have "map (\<lambda>p. (y # ys) ! p) ps = y # map (\<lambda>p. ys ! p) qs"
        using Cons True qs_map by simp
      then show ?thesis using IH by simp
    next
      case False
      then have "tl_pos = ps" using later Cons by (auto simp: tl_pos_def filter_id_conv)
      then have "map (\<lambda>p. (y # ys) ! p) ps = map (\<lambda>p. ys ! p) qs"
        using qs_map by simp
      then show ?thesis using IH by (simp add: list_emb_Cons)
    qed
  qed
qed

lemma foundInOrder_subseq: "foundInOrder sg rs = subseq sg rs"
  unfolding foundInOrder_def using subseq_positions[of sg rs] positions_subseq[of _ rs] by blast

lemma checkPatternFuzzyFilter_result:
  "fst (checkPatternFuzzyFilter cfs flt request) =
     (if length (getFuzzySignature flt) > length (requestSignatureOf cfs request) then False
      else fuzzyLoop (getFuzzySignature flt) (requestSignatureOf cfs request) 0)"
  by (cases "fuzzySignature request")
     (simp_all add: checkPatternFuzzyFilter_def requestSignatureOf_def Let_def)

lemma checkPatternFuzzyFilter_request:
  "snd (checkPatternFuzzyFilter cfs flt request) =
     request\<lparr>fuzzySignature := Some (requestSignatureOf cfs request)\<rparr>"
  by (cases "fuzzySignature request")
     (simp_all add: checkPatternFuzzyFilter_def requestSignatureOf_def Let_def)

text \<open>
  Claim C2. The fuzzy matcher is an order-preserving subsequence test: it fails when the
  filter's signature is longer than the request's; otherwise it succeeds exactly when the
  symbols of the filter's signature stand in the request's signature at strictly
  increasing positions. Signature [1,2,3] matches [0,1,5,2,9,3]; [1,3,2] does not match
  [1,2,3].
\<close>

theorem C2_fuzzy_matcher_is_subsequence_test:
  "fst (checkPatternFuzzyFilter cfs flt request) =
     (if length (getFuzzySignature flt) > length (requestSignatureOf cfs request) then False
      else foundInOrder (getFuzzySignature flt) (requestSignatureOf cfs request))
   \<and> (getFuzzySignature flt = [1, 2, 3] \<and> requestSignatureOf cfs request = [0, 1, 5, 2, 9, 3]
        \<longrightarrow> fst (checkPatternFuzzyFilter cfs flt request))
   \<and> (getFuzzySignature flt = [1, 3, 2] \<and> requestSignatureOf cfs request = [1, 2, 3]
        \<longrightarrow> \<not> fst (checkPatternFuzzyFilter cfs flt request))"
proof (intro conjI impI)
  show "fst (checkPatternFuzzyFilter cfs flt request) =
     (if length (getFuzzySignature flt) > length (requestSignatureOf cfs request) then False
      else foundInOrder (getFuzzySignature flt) (requestSignatureOf cfs request))"
    by (simp add: checkPatternFuzzyFilter_result fuzzyLoop_subseq foundInOrder_subseq)
next
  assume "getFuzzySignature flt = [1, 2, 3] \<and> requestSignatureOf cfs request = [0, 1, 5, 2, 9, 3]"
  then show "fst (checkPatternFuzzyFilter cfs flt request)"
    by (simp add: checkPatternFuzzyFilter_result arrayIndexOf_def)
next
  assume "getFuzzySignature flt = [1, 3, 2] \<and> requestSignatureOf cfs request = [1, 2, 3]"
  then show "\<not> fst (checkPatternFuzzyFilter cfs flt request)"
    by (simp add: checkPatternFuzzyFilter_result arrayIndexOf_def)
qed

theorem C2_witness:
  "fst (checkPatternFuzzyFilter (\<lambda>u. []) sampleFilter sampleRequest) \<and>
   foundInOrder [1, 2, 3 :: 32 word] [0, 1, 5, 2, 9, 3]"
  using C2_fuzzy_matcher_is_subsequence_test[of "\<lambda>u. []" sampleFilter sampleRequest]
  by (simp add: sampleFilter_def sampleRequest_def requestSignatureOf_def
      checkPatternFuzzyFilter_def arrayIndexOf_def)

section \<open>Pattern dispatch and options\<close>

lemma getUrlAfterHostname_leftmost:
  "leftmostAt fh u i \<Longrightarrow> getUrlAfterHostname u fh = drop (i + length fh) u"
proof -
  assume lm: "leftmostAt fh u i"
  then have idx: "indexOf u fh = int i" by (simp add: indexOf_leftmost)
  have "i + length fh \<le> length u" using lm by (simp add: leftmostAt_def occursAt_def)
  then show ?thesis
    by (simp add: getUrlAfterHostname_def substring_def clampIndex_def idx nat_add_distrib)
qed

lemma checkPattern_hostname_anchor:
  "isHostnameAnchor flt \<Longrightarrow> \<not> isRegex flt \<Longrightarrow> \<not> isRightAnchor flt \<Longrightarrow> \<not> isFuzzy flt \<Longrightarrow>
   checkPattern cfs flt request =
     (isAnchoredByHostname (getHostname flt) (hostname request) \<and>
      prefix (getFilter flt) (getUrlAfterHostname (url request) (getHostname flt)), request)"
  by (simp add: checkPattern_def checkPatternHostnameAnchorFilter_def fastStartsWith_def)

text \<open>
  Claim C3. For a hostname-anchored filter that is not regex, not right-anchored and not
  fuzzy, the pattern dispatch matches exactly when the anchor predicate accepts the
  filter's hostname and the request's hostname, and the remainder of the URL after the
  filter's hostname starts with the literal pattern; that remainder is what follows the
  leftmost occurrence of the filter's hostname in the URL. With hostname example.com and
  pattern /ads the request for https://example.com/ads/banner.png on example.com
  matches, and no request on notexample.com does, whatever its URL.
\<close>

theorem C3_hostname_anchor_filter:
  "(isHostnameAnchor flt \<and> \<not> isRegex flt \<and> \<not> isRightAnchor flt \<and> \<not> isFuzzy flt \<longrightarrow>
      (fst (checkPattern cfs flt request) \<longleftrightarrow>
         isAnchoredByHostname (getHostname flt) (hostname request) \<and>
         prefix (getFilter flt) (getUrlAfterHostname (url request) (getHostname flt)))
      \<and> (\<forall>i. leftmostAt (getHostname flt) (url request) i \<longrightarrow>
             getUrlAfterHostname (url request) (getHostname flt)
               = drop (i + length (getHostname flt)) (url request))
      \<and> (getHostname flt = ''example.com'' \<and> getFilter flt = ''/ads'' \<and>
           url request = ''https://example.com/ads/banner.png'' \<and>
           hostname request = ''example.com''
           \<longrightarrow> fst (checkPattern cfs flt request))
      \<and> (getHostname flt = ''example.com'' \<and> getFilter flt = ''/ads'' \<and>
           hostname request = ''notexample.com''
           \<longrightarrow> \<not> fst (checkPattern cfs flt request) \<and>
               \<not> fst (matchNetworkFilter cfs flt request)))"
proof (intro impI)
  assume shape: "isHostnameAnchor flt \<and> \<not> isRegex flt \<and> \<not> isRightAnchor flt \<and> \<not> isFuzzy flt"
  then have cp: "checkPattern cfs flt request =
     (isAnchoredByHostname (getHostname flt) (hostname request) \<and>
      prefix (getFilter flt) (getUrlAfterHostname (url request) (getHostname flt)), request)"
    by (simp add: checkPattern_hostname_anchor)
  have pos: "isAnchoredByHostname ''example.com'' ''example.com''"
    by (simp add: isAnchoredByHostname_def indexOf_def charAt_def)
  have rem: "getUrlAfterHostname ''https://example.com/ads/banner.png'' ''example.com''
              = ''/ads/banner.png''"
    by (simp add: getUrlAfterHostname_def indexOf_def substring_def clampIndex_def)
  have neg: "\<not> isAnchoredByHostname ''example.com'' ''notexample.com''"
    by (simp add: isAnchoredByHostname_def indexOf_def charAt_def)
  show "(fst (checkPattern cfs flt request) \<longleftrightarrow>
         isAnchoredByHostname (getHostname flt) (hostname request) \<and>
         prefix (getFilter flt) (getUrlAfterHostname (url request) (getHostname flt)))
      \<and> (\<forall>i. leftmostAt (getHostname flt) (url request) i \<longrightarrow>
             getUrlAfterHostname (url request) (getHostname flt)
               = drop (i + length (getHostname flt)) (url request))
      \<and> (getHostname flt = ''example.com'' \<and> getFilter flt = ''/ads'' \<and>
           url request = ''https://example.com/ads/banner.png'' \<and>
           hostname request = ''example.com''
           \<longrightarrow> fst (checkPattern cfs flt request))
      \<and> (getHostname flt = ''example.com'' \<and> getFilter flt = ''/ads'' \<and>
           hostname request = ''notexample.com''
           \<longrightarrow> \<not> fst (checkPattern cfs flt request) \<and>
               \<not> fst (matchNetworkFilter cfs flt request))"
  proof (intro conjI allI impI)
    show "fst (checkPattern cfs flt request) \<longleftrightarrow>
         isAnchoredByHostname (getHostname flt) (hostname request) \<and>
         prefix (getFilter flt) (getUrlAfterHostname (url request) (getHostname flt))"
      by (simp add: cp)
  next
    fix i assume "leftmostAt (getHostname flt) (url request) i"
    then show "getUrlAfterHostname (url request) (getHostname flt)
               = drop (i + length (getHostname flt)) (url request)"
      by (rule getUrlAfterHostname_leftmost)
  next
    assume "getHostname flt = ''example.com'' \<and> getFilter flt = ''/ads'' \<and>
           url request = ''https://example.com/ads/banner.png'' \<and>
           hostname request = ''example.com''"
    then show "fst (checkPattern cfs flt request)"
      by (simp add: cp pos rem)
  next
    assume a: "getHostname flt = ''example.com'' \<and> getFilter flt = ''/ads'' \<and>
           hostname request = ''notexample.com''"
    then show "\<not> fst (checkPattern cfs flt request)"
      by (simp add: cp neg)
  next
    assume a: "getHostname flt = ''example.com'' \<and> getFilter flt = ''/ads'' \<and>
           hostname request = ''notexample.com''"
    then show "\<not> fst (matchNetworkFilter cfs flt request)"
      by (simp add: matchNetworkFilter_def cp neg)
  qed
qed

theorem C3_witness:
  "isHostnameAnchor sampleFilter \<and> \<not> isRegex sampleFilter \<and> \<not> isRightAnchor sampleFilter \<and>
   \<not> isFuzzy sampleFilter \<and> getHostname sampleFilter = ''example.com'' \<and>
   getFilter sampleFilter = ''/ads'' \<and> url sampleRequest = ''https://example.com/ads/banner.png'' \<and>
   hostname sampleRequest = ''example.com'' \<and>
   fst (checkPattern (\<lambda>u. []) sampleFilter sampleRequest) \<and>
   isAnchoredByHostname ''example.com'' ''example.com'' \<and>
   prefix ''/ads'' (getUrlAfterHostname ''https://example.com/ads/banner.png'' ''example.com'')"
proof -
  have shape: "isHostnameAnchor sampleFilter \<and> \<not> isRegex sampleFilter \<and>
      \<not> isRightAnchor sampleFilter \<and> \<not> isFuzzy sampleFilter"
    by (simp add: sampleFilter_def)
  have fields: "getHostname sampleFilter = ''example.com''" "getFilter sampleFilter = ''/ads''"
      "url sampleRequest = ''https://example.com/ads/banner.png''"
      "hostname sampleRequest = ''example.com''"
    by (simp_all add: sampleFilter_def sampleRequest_def)
  from C3_hostname_anchor_filter[of sampleFilter "\<lambda>u. []" sampleRequest] shape
  have "(fst (checkPattern (\<lambda>u. []) sampleFilter sampleRequest) \<longleftrightarrow>
         isAnchoredByHostname (getHostname sampleFilter) (hostname sampleRequest) \<and>
         prefix (getFilter sampleFilter)
           (getUrlAfterHostname (url sampleRequest) (getHostname sampleFilter)))"
    and "getHostname sampleFilter = ''example.com'' \<and> getFilter sampleFilter = ''/ads'' \<and>
           url sampleRequest = ''https://example.com/ads/banner.png'' \<and>
           hostname sampleRequest = ''example.com''
           \<longrightarrow> fst (checkPattern (\<lambda>u. []) sampleFilter sampleRequest)"
    by blast+
  then show ?thesis using shape fields by simp
qed

lemma fcard_pos_iff: "0 < fcard S \<longleftrightarrow> S \<noteq> {||}"
  by (cases "S = {||}") (auto simp: fcard_fempty)

text \<open>
  Claim C7. When a filter declares a non-empty set of allowed domains and neither the
  source domain nor the source hostname of the request is a member, \<open>matchNetworkFilter\<close>
  returns false; the pattern dispatch is not run, so the request is left as it was.
\<close>

theorem C7_allow_domains_reject_first:
  "hasOptDomains flt \<Longrightarrow> getOptDomains flt \<noteq> {||} \<Longrightarrow>
   sourceGD request |\<notin>| getOptDomains flt \<Longrightarrow> sourceHostname request |\<notin>| getOptDomains flt \<Longrightarrow>
   matchNetworkFilter cfs flt request = (False, request)"
proof -
  assume a: "hasOptDomains flt" "getOptDomains flt \<noteq> {||}"
    "sourceGD request |\<notin>| getOptDomains flt" "sourceHostname request |\<notin>| getOptDomains flt"
  then have "\<not> checkOptions flt request"
    by (auto simp: checkOptions_def Let_def fcard_pos_iff)
  then show ?thesis by (simp add: matchNetworkFilter_def)
qed

theorem C7_witness:
  "hasOptDomains sampleFuzzyFilter \<and> getOptDomains sampleFuzzyFilter \<noteq> {||} \<and>
   sourceGD otherSourceRequest |\<notin>| getOptDomains sampleFuzzyFilter \<and>
   sourceHostname otherSourceRequest |\<notin>| getOptDomains sampleFuzzyFilter \<and>
   matchNetworkFilter (\<lambda>u. [0, 1, 5, 2, 9, 3]) sampleFuzzyFilter otherSourceRequest
     = (False, otherSourceRequest) \<and>
   fuzzySignature otherSourceRequest = None"
proof -
  have h: "hasOptDomains sampleFuzzyFilter" "getOptDomains sampleFuzzyFilter \<noteq> {||}"
    "sourceGD otherSourceRequest |\<notin>| getOptDomains sampleFuzzyFilter"
    "sourceHostname otherSourceRequest |\<notin>| getOptDomains sampleFuzzyFilter"
    by (simp_all add: sampleFuzzyFilter_def sampleFilter_def otherSourceRequest_def
        uncachedRequest_def sampleRequest_def)
  have n: "fuzzySignature otherSourceRequest = None"
    by (simp add: otherSourceRequest_def uncachedRequest_def)
  from C7_allow_domains_reject_first[OF h, of "\<lambda>u. [0, 1, 5, 2, 9, 3]"] h n
  show ?thesis by simp
qed

section \<open>Repeated matching\<close>

lemma checkPattern_request:
  "snd (checkPattern cfs flt r) = r \<or>
   snd (checkPattern cfs flt r) = r\<lparr>fuzzySignature := Some (requestSignatureOf cfs r)\<rparr>"
  by (simp add: checkPattern_def checkPatternHostnameAnchorFuzzyFilter_def
      checkPatternFuzzyFilter_request)

lemma checkOptions_cache: "checkOptions flt (r\<lparr>fuzzySignature := x\<rparr>) = checkOptions flt r"
  by (simp add: checkOptions_def)

lemma checkPatternFuzzyFilter_cached:
  "checkPatternFuzzyFilter cfs flt (r\<lparr>fuzzySignature := Some (requestSignatureOf cfs r)\<rparr>) =
     (fst (checkPatternFuzzyFilter cfs flt r), r\<lparr>fuzzySignature := Some (requestSignatureOf cfs r)\<rparr>)"
  by (cases "fuzzySignature r")
     (simp_all add: checkPatternFuzzyFilter_def requestSignatureOf_def Let_def)

lemma checkPattern_cached:
  "checkPattern cfs flt (r\<lparr>fuzzySignature := Some (requestSignatureOf cfs r)\<rparr>) =
     (fst (checkPattern cfs flt r), r\<lparr>fuzzySignature := Some (requestSignatureOf cfs r)\<rparr>)"
  by (simp add: checkPattern_def checkPatternHostnameAnchorFuzzyFilter_def
      checkPatternFuzzyFilter_cached checkPatternHostnameAnchorRegexFilter_def
      checkPatternHostnameRightAnchorFilter_def checkPatternHostnameAnchorFilter_def
      checkPatternRegexFilter_def checkPatternLeftRightAnchorFilter_def
      checkPatternLeftAnchorFilter_def checkPatternRightAnchorFilter_def
      checkPatternPlainFilter_def)

lemma matchNetworkFilter_cached:
  "matchNetworkFilter cfs flt (r\<lparr>fuzzySignature := Some (requestSignatureOf cfs r)\<rparr>) =
     (fst (matchNetworkFilter cfs flt r), r\<lparr>fuzzySignature := Some (requestSignatureOf cfs r)\<rparr>)"
  by (simp add: matchNetworkFilter_def checkOptions_cache checkPattern_cached)

lemma matchNetworkFilter_request:
  "snd (matchNetworkFilter cfs flt r) = r \<or>
   snd (matchNetworkFilter cfs flt r) = r\<lparr>fuzzySignature := Some (requestSignatureOf cfs r)\<rparr>"
  using checkPattern_request[of cfs flt r] by (simp add: matchNetworkFilter_def)

text \<open>
  Claim C9. Calling \<open>matchNetworkFilter\<close> a second time, on the request as the first call
  left it (with its fuzzy signature, if the first call has written it), returns the same
  boolean, and leaves the request as the first call did.
\<close>

theorem C9_matches_is_repeatable:
  "fst (matchNetworkFilter cfs flt (snd (matchNetworkFilter cfs flt request)))
     = fst (matchNetworkFilter cfs flt request)
   \<and> snd (matchNetworkFilter cfs flt (snd (matchNetworkFilter cfs flt request)))
     = snd (matchNetworkFilter cfs flt request)"
proof -
  from matchNetworkFilter_request[of cfs flt request] show ?thesis
  proof
    assume "snd (matchNetworkFilter cfs flt request) = request"
    then show ?thesis by simp
  next
    assume "snd (matchNetworkFilter cfs flt request)
              = request\<lparr>fuzzySignature := Some (requestSignatureOf cfs request)\<rparr>"
    then show ?thesis by (simp add: matchNetworkFilter_cached)
  qed
qed

theorem C9_witness:
  "fuzzySignature uncachedRequest = None \<and>
   fuzzySignature (snd (matchNetworkFilter (\<lambda>u. [0, 1, 5, 2, 9, 3]) sampleFuzzyFilter uncachedRequest))
     = Some [0, 1, 5, 2, 9, 3] \<and>
   fst (matchNetworkFilter (\<lambda>u. [0, 1, 5, 2, 9, 3]) sampleFuzzyFilter uncachedRequest) \<and>
   fst (matchNetworkFilter (\<lambda>u. [0, 1, 5, 2, 9, 3]) sampleFuzzyFilter
         (snd (matchNetworkFilter (\<lambda>u. [0, 1, 5, 2, 9, 3]) sampleFuzzyFilter uncachedRequest)))"
proof -
  have opts: "checkOptions sampleFuzzyFilter uncachedRequest"
    by (simp add: checkOptions_def sampleFuzzyFilter_def sampleFilter_def uncachedRequest_def
        sampleRequest_def fcard_pos_iff)
  have first: "matchNetworkFilter (\<lambda>u. [0, 1, 5, 2, 9, 3]) sampleFuzzyFilter uncachedRequest
      = (True, uncachedRequest\<lparr>fuzzySignature := Some [0, 1, 5, 2, 9, 3]\<rparr>)"
    by (simp add: matchNetworkFilter_def opts checkPattern_def checkPatternFuzzyFilter_def
        arrayIndexOf_def)
       (simp add: sampleFuzzyFilter_def sampleFilter_def uncachedRequest_def
        sampleRequest_def arrayIndexOf_def)
  from C9_matches_is_repeatable[of "\<lambda>u. [0, 1, 5, 2, 9, 3]" sampleFuzzyFilter uncachedRequest]
  show ?thesis by (simp add: first) (simp add: uncachedRequest_def)
qed

section \<open>The cosmetic filter parser\<close>

text \<open>
  Claim C5, amended. \<open>parseCosmeticFilter\<close> yields no filter for every line whose parsed
  selector is empty, ends in a closing brace or contains the two characters \<open>##\<close>, and
  for every unhide line without hostnames; it yields a filter for every other line. The
  model has no error value: every line yields a filter or none. In particular the line
  \<open>#@#.ad\<close> yields none.
\<close>

theorem C5_rejected_lines_amended:
  "(parseCosmeticFilter fastHash line = None \<longleftrightarrow>
      (case parseCosmeticFields line of
         (m, sel, hosts) \<Rightarrow>
           sel = [] \<or> suffix ''}'' sel \<or> (\<exists>i. occursAt ''##'' sel i) \<or>
           (getBit m COSMETICS_MASK_unhide \<and> hosts = [])))
   \<and> parseCosmeticFilter fastHash ''#@#.ad'' = None"
proof (intro conjI)
  obtain m sel hosts where p: "parseCosmeticFields line = (m, sel, hosts)"
    by (cases "parseCosmeticFields line") auto
  have "indexOf sel ''##'' \<noteq> - 1 \<longleftrightarrow> (\<exists>i. occursAt ''##'' sel i)"
    by (simp add: indexOf_absent)
  with p show "parseCosmeticFilter fastHash line = None \<longleftrightarrow>
      (case parseCosmeticFields line of
         (m, sel, hosts) \<Rightarrow>
           sel = [] \<or> suffix ''}'' sel \<or> (\<exists>i. occursAt ''##'' sel i) \<or>
           (getBit m COSMETICS_MASK_unhide \<and> hosts = []))"
    by (auto simp: parseCosmeticFilter_def)
next
  have "parseCosmeticFields ''#@#.ad'' = (1, ''.ad'', [])"
    by (simp add: parseCosmeticFields_def indexOf_def charAt_def substr_def fastStartsWith_def
        setBit_def COSMETICS_MASK_unhide_def)
  then show "parseCosmeticFilter fastHash ''#@#.ad'' = None"
    by (simp add: parseCosmeticFilter_def getBit_def COSMETICS_MASK_unhide_def indexOf_def)
qed

theorem C5_witness:
  "parseCosmeticFields ''foo.com##a{b}'' = (0, ''a{b}'', ''foo.com'') \<and>
   suffix ''}'' ''a{b}'' \<and>
   parseCosmeticFilter (\<lambda>l. 0) ''foo.com##a{b}'' = None"
proof -
  have f: "parseCosmeticFields ''foo.com##a{b}'' = (0, ''a{b}'', ''foo.com'')"
    by (simp add: parseCosmeticFields_def indexOf_def charAt_def substr_def fastStartsWith_def
        substring2_def clampIndex_def)
  have s: "suffix ''}'' ''a{b}''" by (simp add: suffix_def)
  from C5_rejected_lines_amended[of "\<lambda>l. 0" "''foo.com##a{b}''"] f s
  show ?thesis by simp
qed

text \<open>
  A second occurrence of a separator in the selector is not rejected as such: the parser
  searches the selector for \<open>##\<close> only. The selector \<open>b#@#c\<close> holds the unhide separator
  and \<open>b#c\<close> the separator character, and the lines \<open>a.com##b#@#c\<close>, \<open>a.com#@#b#@#c\<close>
  and \<open>a.com##b#c\<close> each yield a filter.
\<close>

theorem C5_counterexample:
  "occursAt ''#@#'' ''b#@#c'' 1 \<and> occursAt ''#'' ''b#c'' 1 \<and>
   (\<forall>fastHash. parseCosmeticFilter fastHash ''a.com##b#@#c'' =
      Some \<lparr>id_cf = fastHash ''a.com##b#@#c'', mask_cf = 0, selector = ''b#@#c'',
             hostnames = ''a.com'', rawLine = None, hostnamesArray = None\<rparr>) \<and>
   (\<forall>fastHash. parseCosmeticFilter fastHash ''a.com#@#b#@#c'' =
      Some \<lparr>id_cf = fastHash ''a.com#@#b#@#c'', mask_cf = 1, selector = ''b#@#c'',
             hostnames = ''a.com'', rawLine = None, hostnamesArray = None\<rparr>) \<and>
   (\<forall>fastHash. parseCosmeticFilter fastHash ''a.com##b#c'' =
      Some \<lparr>id_cf = fastHash ''a.com##b#c'', mask_cf = 0, selector = ''b#c'',
             hostnames = ''a.com'', rawLine = None, hostnamesArray = None\<rparr>)"
proof -
  have f1: "parseCosmeticFields ''a.com##b#@#c'' = (0, ''b#@#c'', ''a.com'')"
    by (simp add: parseCosmeticFields_def indexOf_def charAt_def substr_def fastStartsWith_def
        substring2_def clampIndex_def)
  have f2: "parseCosmeticFields ''a.com#@#b#@#c'' = (1, ''b#@#c'', ''a.com'')"
    by (simp add: parseCosmeticFields_def indexOf_def charAt_def substr_def fastStartsWith_def
        substring2_def clampIndex_def setBit_def COSMETICS_MASK_unhide_def)
  have f3: "parseCosmeticFields ''a.com##b#c'' = (0, ''b#c'', ''a.com'')"
    by (simp add: parseCosmeticFields_def indexOf_def charAt_def substr_def fastStartsWith_def
        substring2_def clampIndex_def)
  show ?thesis
    by (simp add: parseCosmeticFilter_def f1 f2 f3 indexOf_def suffix_to_prefix getBit_def
        COSMETICS_MASK_unhide_def occursAt_def)
qed

lemma occursAt_single: "occursAt [c] s i \<longleftrightarrow> i < length s \<and> s ! i = c"
proof (cases "i < length s")
  case True
  then have "take 1 (drop i s) = [s ! i]"
    by (metis One_nat_def drop_eq_Nil2 hd_drop_conv_nth leD list.collapse take0 take_Suc)
  with True show ?thesis by (auto simp: occursAt_def)
next
  case False
  then show ?thesis by (simp add: occursAt_def)
qed

lemma indexOf_single_absent: "indexOf s [c] = - 1 \<longleftrightarrow> c \<notin> set s"
  by (simp add: indexOf_absent occursAt_single in_set_conv_nth)

lemma parseCosmeticFields_plain:
  assumes "c \<noteq> CHR ''@''" "c \<noteq> CHR ''#''" "CHR ''#'' \<notin> set rest" "\<not> prefix ''script:'' rest"
  shows "parseCosmeticFields (c # rest) = (0, rest, [])"
proof -
  have idx: "indexOf (c # rest) ''#'' = - 1" using assms(2,3) by (simp add: indexOf_single_absent)
  show ?thesis
    using assms(1,4)
    by (simp add: parseCosmeticFields_def idx charAt_def substr_def fastStartsWith_def)
qed

text \<open>
  Claim C10, amended. For every line without \<open>#\<close>, whose first character is not \<open>@\<close>
  and whose rest from index 1 is not empty, does not end in a closing brace, contains
  no \<open>##\<close> and does not start with \<open>script:\<close>, the parser returns a filter whose selector
  is that rest, with empty hostnames and no flag set.
\<close>

theorem C10_no_separator_amended:
  "CHR ''#'' \<notin> set line \<Longrightarrow> hd line \<noteq> CHR ''@'' \<Longrightarrow> drop 1 line \<noteq> [] \<Longrightarrow>
   \<not> suffix ''}'' (drop 1 line) \<Longrightarrow> \<not> (\<exists>i. occursAt ''##'' (drop 1 line) i) \<Longrightarrow>
   \<not> prefix ''script:'' (drop 1 line) \<Longrightarrow>
   parseCosmeticFilter fastHash line =
     Some \<lparr>id_cf = fastHash line, mask_cf = 0, selector = drop 1 line, hostnames = [],
            rawLine = None, hostnamesArray = None\<rparr>"
proof -
  assume a: "CHR ''#'' \<notin> set line" "hd line \<noteq> CHR ''@''" "drop 1 line \<noteq> []"
    "\<not> suffix ''}'' (drop 1 line)" "\<not> (\<exists>i. occursAt ''##'' (drop 1 line) i)"
    "\<not> prefix ''script:'' (drop 1 line)"
  from a(3) obtain c rest where l: "line = c # rest" by (cases line) auto
  have flds: "parseCosmeticFields (c # rest) = (0, rest, [])"
    using a(1,2,6) l by (intro parseCosmeticFields_plain) auto
  have nohh: "indexOf rest ''##'' = - 1" using a(5) l by (simp add: indexOf_absent)
  show ?thesis
    unfolding l using a(3,4) l nohh by (simp add: parseCosmeticFilter_def flds getBit_def)
qed

theorem C10_witness:
  "CHR ''#'' \<notin> set ''x.ad'' \<and> hd ''x.ad'' \<noteq> CHR ''@'' \<and> drop 1 ''x.ad'' \<noteq> [] \<and>
   \<not> suffix ''}'' (drop 1 ''x.ad'') \<and> \<not> (\<exists>i. occursAt ''##'' (drop 1 ''x.ad'') i) \<and>
   \<not> prefix ''script:'' (drop 1 ''x.ad'') \<and>
   parseCosmeticFilter (\<lambda>l. 7) ''x.ad'' =
     Some \<lparr>id_cf = 7, mask_cf = 0, selector = ''.ad'', hostnames = [],
            rawLine = None, hostnamesArray = None\<rparr>"
proof -
  have h: "CHR ''#'' \<notin> set ''x.ad''" "hd ''x.ad'' \<noteq> CHR ''@''" "drop 1 ''x.ad'' \<noteq> []"
    "\<not> suffix ''}'' (drop 1 ''x.ad'')" "\<not> prefix ''script:'' (drop 1 ''x.ad'')"
    by (simp_all add: suffix_to_prefix)
  have "indexOf ''.ad'' ''##'' = - 1" by (simp add: indexOf_def)
  then have o: "\<not> (\<exists>i. occursAt ''##'' (drop 1 ''x.ad'') i)" by (simp add: indexOf_absent)
  from C10_no_separator_amended[OF h(1,2,3,4) o h(5), of "\<lambda>l. 7"] h o show ?thesis by simp
qed

text \<open>
  Without the condition on \<open>script:\<close> the statement fails: the line \<open>xscript:inject()\<close>
  meets the other conditions and yields no filter, and \<open>xscript:inject(foo)\<close> yields
  a filter with the script-inject flag and the selector \<open>foo\<close>.
\<close>

theorem C10_counterexample:
  "CHR ''#'' \<notin> set ''xscript:inject()'' \<and> hd ''xscript:inject()'' \<noteq> CHR ''@'' \<and>
   drop 1 ''xscript:inject()'' \<noteq> [] \<and> \<not> suffix ''}'' (drop 1 ''xscript:inject()'') \<and>
   indexOf (drop 1 ''xscript:inject()'') ''##'' = - 1 \<and>
   (\<forall>fastHash. parseCosmeticFilter fastHash ''xscript:inject()'' = None) \<and>
   (\<forall>fastHash. parseCosmeticFilter fastHash ''xscript:inject(foo)'' =
      Some \<lparr>id_cf = fastHash ''xscript:inject(foo)'', mask_cf = 2, selector = ''foo'',
             hostnames = [], rawLine = None, hostnamesArray = None\<rparr>)"
proof -
  have f1: "parseCosmeticFields ''xscript:inject()'' = (2, [], [])"
    by (simp add: parseCosmeticFields_def indexOf_def charAt_def substr_def fastStartsWith_def
        fastStartsWithFrom_def substring2_def clampIndex_def setBit_def
        COSMETICS_MASK_scriptInject_def)
  have f2: "parseCosmeticFields ''xscript:inject(foo)'' = (2, ''foo'', [])"
    by (simp add: parseCosmeticFields_def indexOf_def charAt_def substr_def fastStartsWith_def
        fastStartsWithFrom_def substring2_def clampIndex_def setBit_def
        COSMETICS_MASK_scriptInject_def)
  show ?thesis
    by (simp add: parseCosmeticFilter_def f1 f2 indexOf_def suffix_to_prefix getBit_def
        COSMETICS_MASK_unhide_def)
qed

section \<open>Cosmetic filters after construction\<close>

lemma getHostnames_keeps:
  "mask_cf (snd (getHostnames f)) = mask_cf f \<and> hostnames (snd (getHostnames f)) = hostnames f \<and>
   selector (snd (getHostnames f)) = selector f \<and> id_cf (snd (getHostnames f)) = id_cf f"
  by (cases "hostnamesArray f") (simp_all add: getHostnames_def Let_def)

lemma afterCall_keeps:
  "mask_cf (afterCall f m) = mask_cf f \<and> hostnames (afterCall f m) = hostnames f \<and>
   selector (afterCall f m) = selector f \<and> id_cf (afterCall f m) = id_cf f"
  by (cases m) (simp_all add: getHostnames_keeps)

lemma afterCalls_keeps:
  "mask_cf (afterCalls f ms) = mask_cf f \<and> hostnames (afterCalls f ms) = hostnames f \<and>
   selector (afterCalls f ms) = selector f \<and> id_cf (afterCalls f ms) = id_cf f"
  unfolding afterCalls_def
  by (induction ms arbitrary: f) (simp_all add: afterCall_keeps)

lemma parse_unhide_has_hostnames:
  "parseCosmeticFilter fastHash line = Some f \<Longrightarrow> isUnhide f \<Longrightarrow> hostnames f \<noteq> []"
  by (cases "parseCosmeticFields line")
     (auto simp: parseCosmeticFilter_def isUnhide_def split: if_splits)

text \<open>
  Claim C8. A filter that \<open>parseCosmeticFilter\<close> returns with the unhide flag has hostnames
  that are not empty, and no sequence of calls of its methods changes its mask or its
  hostnames: after the calls it is still an unhide filter with hostnames.
\<close>

theorem C8_unhide_keeps_hostname_scope:
  "parseCosmeticFilter fastHash line = Some f \<Longrightarrow> isUnhide f \<Longrightarrow>
   hostnames f \<noteq> [] \<and>
   mask_cf (afterCalls f ms) = mask_cf f \<and> hostnames (afterCalls f ms) = hostnames f \<and>
   isUnhide (afterCalls f ms) \<and> hasHostnames (afterCalls f ms)"
  using parse_unhide_has_hostnames[of fastHash line f] afterCalls_keeps[of f ms]
  by (simp add: isUnhide_def hasHostnames_def)

theorem C8_witness:
  "parseCosmeticFilter (\<lambda>l. 7) ''foo.com,a.org#@#.ad''
     = Some \<lparr>id_cf = 7, mask_cf = 1, selector = ''.ad'', hostnames = ''foo.com,a.org'',
             rawLine = None, hostnamesArray = None\<rparr> \<and>
   isUnhide \<lparr>id_cf = 7, mask_cf = 1, selector = ''.ad'', hostnames = ''foo.com,a.org'',
             rawLine = None, hostnamesArray = None\<rparr> \<and>
   hostnamesArray (afterCalls \<lparr>id_cf = 7, mask_cf = 1, selector = ''.ad'',
        hostnames = ''foo.com,a.org'', rawLine = None, hostnamesArray = None\<rparr>
        [GetHostnames, ToString]) = Some [''foo.com'', ''a.org''] \<and>
   hostnames (afterCalls \<lparr>id_cf = 7, mask_cf = 1, selector = ''.ad'',
        hostnames = ''foo.com,a.org'', rawLine = None, hostnamesArray = None\<rparr>
        [GetHostnames, ToString]) = ''foo.com,a.org''"
proof -
  let ?f = "\<lparr>id_cf = 7, mask_cf = 1, selector = ''.ad'', hostnames = ''foo.com,a.org'',
             rawLine = None, hostnamesArray = None\<rparr>"
  have flds: "parseCosmeticFields ''foo.com,a.org#@#.ad'' = (1, ''.ad'', ''foo.com,a.org'')"
    by (simp add: parseCosmeticFields_def indexOf_def charAt_def substr_def fastStartsWith_def
        substring2_def clampIndex_def setBit_def COSMETICS_MASK_unhide_def)
  have p: "parseCosmeticFilter (\<lambda>l. 7) ''foo.com,a.org#@#.ad'' = Some ?f"
    by (simp add: parseCosmeticFilter_def flds getBit_def COSMETICS_MASK_unhide_def indexOf_def
        suffix_to_prefix)
  have u: "isUnhide ?f" by (simp add: isUnhide_def getBit_def COSMETICS_MASK_unhide_def)
  have arr: "hostnamesArray (afterCalls ?f [GetHostnames, ToString]) = Some [''foo.com'', ''a.org'']"
    by (simp add: afterCalls_def getHostnames_def hasHostnames_def Let_def)
  from C8_unhide_keeps_hostname_scope[OF p u, of "[GetHostnames, ToString]"] p u arr
  show ?thesis by simp
qed

section \<open>The selector tokenizer\<close>

lemma attribute_selector_line_parses:
  "parseCosmeticFilter fastHash ''##.a[b~=c].d'' =
     Some \<lparr>id_cf = fastHash ''##.a[b~=c].d'', mask_cf = 0, selector = ''.a[b~=c].d'',
            hostnames = [], rawLine = None, hostnamesArray = None\<rparr>"
proof -
  have f: "parseCosmeticFields ''##.a[b~=c].d'' = (0, ''.a[b~=c].d'', [])"
    by (simp add: parseCosmeticFields_def indexOf_def charAt_def substr_def fastStartsWith_def)
  show ?thesis
    by (simp add: parseCosmeticFilter_def f indexOf_def suffix_to_prefix getBit_def)
qed

text \<open>
  Claim C6. The selector tokenizer is to split at the last combinator outside brackets
  and to leave the interior of bracketed spans out. On the selector \<open>.a[b=c].d\<close> it
  yields the tokens of \<open>.a\<close> and \<open>.d\<close>, as claimed. On \<open>.a[b~=c].d\<close>, the selector of
  the line \<open>##.a[b~=c].d\<close>, the scan for the combinator stops at the \<open>~\<close> inside the
  brackets (index 4), the depth falls below zero at the closing bracket, and no token
  is produced at all, for any tokenizer.
\<close>

theorem C6_combinator_inside_attribute_span:
  "getTokensSelector tokenizeCSS
     \<lparr>id_cf = h, mask_cf = 0, selector = ''.a[b~=c].d'', hostnames = hs,
      rawLine = None, hostnamesArray = None\<rparr> = []
   \<and> findSepIndex ''.a[b~=c].d'' (length ''.a[b~=c].d'') = 4
   \<and> getTokensSelector tokenizeCSS
     \<lparr>id_cf = h, mask_cf = 0, selector = ''.a[b=c].d'', hostnames = hs,
      rawLine = None, hostnamesArray = None\<rparr> = tokenizeCSS ''.a'' @ tokenizeCSS ''.d''"
  by (simp add: getTokensSelector_def isScriptInject_def isScriptBlock_def getBit_def
      slice_def Let_def)

end
